theory Spec2Isabelle
  imports Main "HOL-Library.Sublist"
begin

unbundle bit_operations_syntax

section \<open>Performance model of the cva6: data model\<close>

text \<open>
  The embedding follows \<^verbatim>\<open>perf-model/cycle_count.py\<close> and
  \<^verbatim>\<open>perf-model/compute_accuracy.py\<close>. Python integers are unbounded, so they are
  \<^typ>\<open>int\<close>; \<^verbatim>\<open>&\<close>, \<^verbatim>\<open><<\<close> and \<^verbatim>\<open>>>\<close> are the
  two's-complement operations \<open>AND\<close>, \<open>push_bit\<close> and \<open>drop_bit\<close> on \<^typ>\<open>int\<close>.
  Every \<^verbatim>\<open>raise\<close> the modelled code can reach is a value of \<open>error\<close>.
  The \<^verbatim>\<open>_debug\<close> methods only print, so they have no counterpart here.
\<close>

datatype error = IndexError | ZeroDivisionError | AssertionError

text \<open>
  Class \<^verbatim>\<open>Instruction\<close>. The decoder class \<^verbatim>\<open>isa.Instr\<close> it inherits from is
  not part of the sources, so what its methods return for an instruction is carried
  in fields of the record: \<open>instr_size\<close> is \<^verbatim>\<open>size()\<close>, and the \<open>is_\<close> fields are
  the methods of the same names. \<open>cycle\<close> is \<^verbatim>\<open>int(self.cycle)\<close>: the trace
  pattern only lets decimal digits into that field.
\<close>

record instruction =
  address :: int
  hex_code :: string
  cycle :: int
  instr_size :: int
  is_compressed :: bool
  is_jump :: bool
  is_branch :: bool
  is_regjump :: bool
  is_muldiv :: bool
  is_load :: bool
  is_store :: bool

definition next_addr :: "instruction \<Rightarrow> int" where
  "next_addr instr = address instr + instr_size instr"

section \<open>IqLen: the instruction queue as a size counter\<close>

record iqlen =
  fetch_size :: int
  iq_debug :: bool
  len :: int
  new_fetch :: bool

text \<open>
  The loop of \<^verbatim>\<open>IqLen.__init__\<close>:
  \<^verbatim>\<open>while self.fetch_size < fetch_size: self.fetch_size <<= 1\<close>.
  Nothing in its text bounds the number of rounds, so not returning is the value \<open>None\<close>.
\<close>

partial_function (option) fetch_size_loop :: "int \<Rightarrow> int \<Rightarrow> int option" where
  "fetch_size_loop cur requested =
     (if cur < requested then fetch_size_loop (push_bit 1 cur) requested else Some cur)"

declare fetch_size_loop.simps [code]

definition IqLen_init :: "int \<Rightarrow> bool \<Rightarrow> iqlen option" where
  "IqLen_init requested dbg =
     (case fetch_size_loop 4 requested of
        None \<Rightarrow> None
      | Some fs \<Rightarrow> Some \<lparr>fetch_size = fs, iq_debug = dbg, len = fs, new_fetch = True\<rparr>)"

definition IqLen_fetch :: "iqlen \<Rightarrow> iqlen" where
  "IqLen_fetch s = s\<lparr>len := len s + fetch_size s, new_fetch := True\<rparr>"

definition IqLen_flush :: "iqlen \<Rightarrow> iqlen" where
  "IqLen_flush s = s\<lparr>len := 0, new_fetch := False\<rparr>"

definition addr_index :: "iqlen \<Rightarrow> int \<Rightarrow> int" where
  "addr_index s addr = addr AND (fetch_size s - 1)"

definition is_crossword :: "iqlen \<Rightarrow> instruction \<Rightarrow> bool" where
  "is_crossword s instr =
     (let is_last = (addr_index s (address instr) = fetch_size s - 2)
      in is_last \<and> \<not> is_compressed instr)"

definition truncate_iq :: "iqlen \<Rightarrow> int \<Rightarrow> iqlen" where
  "truncate_iq s index =
     (let occupancy = fetch_size s - addr_index s (len s);
          to_remove = index - occupancy;
          to_remove = (if to_remove < 0 then to_remove + fetch_size s else to_remove)
      in s\<lparr>len := len s - to_remove\<rparr>)"

definition IqLen_jump :: "iqlen \<Rightarrow> iqlen" where
  "IqLen_jump s =
     (let s = (if new_fetch s then s\<lparr>len := len s - fetch_size s, new_fetch := False\<rparr> else s)
      in truncate_iq s 0)"

definition IqLen_has :: "iqlen \<Rightarrow> instruction \<Rightarrow> bool" where
  "IqLen_has s instr =
     (let length = len s;
          length = (if is_crossword s instr then length - (fetch_size s - 2) else length)
      in length \<ge> instr_size instr)"

definition IqLen_remove :: "iqlen \<Rightarrow> instruction \<Rightarrow> iqlen" where
  "IqLen_remove s instr =
     (let s = s\<lparr>len := len s - instr_size instr\<rparr>;
          s = truncate_iq s (addr_index s (next_addr instr))
      in if is_jump instr then IqLen_jump s else s)"

text \<open>
  Sequences of calls on one queue. \<open>Has\<close> only reads. \<open>iq_states\<close> lists the queue
  after each call; \<open>iq_guarded\<close> says that every \<open>Remove\<close> comes when \<open>has\<close> is true
  of the same instruction, which is how a scheduler uses the queue.
\<close>

datatype iq_op = Fetch | Flush | Jump | Has instruction | Remove instruction

fun iq_step :: "iqlen \<Rightarrow> iq_op \<Rightarrow> iqlen" where
  "iq_step s Fetch = IqLen_fetch s"
| "iq_step s Flush = IqLen_flush s"
| "iq_step s Jump = IqLen_jump s"
| "iq_step s (Has instr) = s"
| "iq_step s (Remove instr) = IqLen_remove s instr"

fun iq_run :: "iqlen \<Rightarrow> iq_op list \<Rightarrow> iqlen" where
  "iq_run s [] = s"
| "iq_run s (op # ops) = iq_run (iq_step s op) ops"

fun iq_states :: "iqlen \<Rightarrow> iq_op list \<Rightarrow> iqlen list" where
  "iq_states s [] = []"
| "iq_states s (op # ops) = iq_step s op # iq_states (iq_step s op) ops"

fun iq_guarded :: "iqlen \<Rightarrow> iq_op list \<Rightarrow> bool" where
  "iq_guarded s [] = True"
| "iq_guarded s (Remove instr # ops) =
     (IqLen_has s instr \<and> iq_guarded (IqLen_remove s instr) ops)"
| "iq_guarded s (op # ops) = iq_guarded (iq_step s op) ops"

fun removed_sizes_ok :: "iq_op list \<Rightarrow> bool" where
  "removed_sizes_ok [] = True"
| "removed_sizes_ok (Remove instr # ops) = (0 \<le> instr_size instr \<and> removed_sizes_ok ops)"
| "removed_sizes_ok (op # ops) = removed_sizes_ok ops"

text \<open>
  The truncate rule and \<^verbatim>\<open>remove\<close> as the design document words them, with
  the offset within a fetch word written as a remainder. Only the buffered length is
  described there; these two definitions are compared with the code's further down.
\<close>

definition truncate_rule :: "int \<Rightarrow> int \<Rightarrow> int \<Rightarrow> int" where
  "truncate_rule fetch_width buffered_length target_index =
     (let occupancy = fetch_width - (buffered_length mod fetch_width);
          to_remove = target_index - occupancy;
          to_remove = (if to_remove < 0 then to_remove + fetch_width else to_remove)
      in buffered_length - to_remove)"

definition remove_rule :: "iqlen \<Rightarrow> instruction \<Rightarrow> int" where
  "remove_rule s instr =
     (let fetch_width = fetch_size s;
          l = len s - instr_size instr;
          l = truncate_rule fetch_width l (next_addr instr mod fetch_width)
      in if is_jump instr
         then truncate_rule fetch_width (if new_fetch s then l - fetch_width else l) 0
         else l)"

section \<open>Ras: the return address stack\<close>

record ras =
  depth :: int
  stack :: "int list"
  ras_debug :: bool
  last_dropped :: "int option"

definition Ras_init :: "int \<Rightarrow> bool \<Rightarrow> ras" where
  "Ras_init d dbg = \<lparr>depth = d - 1, stack = [], ras_debug = dbg, last_dropped = None\<rparr>"

text \<open>\<^verbatim>\<open>pop(0)\<close> comes right after \<^verbatim>\<open>append\<close>, so the list it pops is never empty.\<close>

definition Ras_push :: "ras \<Rightarrow> int \<Rightarrow> ras" where
  "Ras_push s addr =
     (let s = s\<lparr>stack := stack s @ [addr]\<rparr>
      in if int (length (stack s)) > depth s then s\<lparr>stack := tl (stack s)\<rparr> else s)"

definition Ras_drop :: "ras \<Rightarrow> ras" where
  "Ras_drop s =
     (if length (stack s) > 0
      then s\<lparr>last_dropped := Some (last (stack s)), stack := butlast (stack s)\<rparr>
      else s\<lparr>last_dropped := None\<rparr>)"

definition Ras_read :: "ras \<Rightarrow> int option" where
  "Ras_read s = (case last_dropped s of Some addr \<Rightarrow> Some addr | None \<Rightarrow> None)"

text \<open>
  \<^verbatim>\<open>Ras.resolve\<close> asks the instruction \<^verbatim>\<open>is_ret()\<close> and \<^verbatim>\<open>is_call()\<close>, which
  rest on the absent decoder; their answers and \<^verbatim>\<open>next_addr()\<close> are arguments here.
\<close>

definition Ras_resolve :: "ras \<Rightarrow> bool \<Rightarrow> bool \<Rightarrow> int \<Rightarrow> ras" where
  "Ras_resolve s ret call nxt =
     (let s = (if ret then Ras_drop s else s)
      in if call then Ras_push s nxt else s)"

datatype ras_op = Push int | Drop | Read | Resolve bool bool int

fun ras_step :: "ras \<Rightarrow> ras_op \<Rightarrow> ras" where
  "ras_step s (Push addr) = Ras_push s addr"
| "ras_step s Drop = Ras_drop s"
| "ras_step s Read = s"
| "ras_step s (Resolve ret call nxt) = Ras_resolve s ret call nxt"

fun ras_run :: "ras \<Rightarrow> ras_op list \<Rightarrow> ras" where
  "ras_run s [] = s"
| "ras_run s (op # ops) = ras_run (ras_step s op) ops"

fun push_all :: "ras \<Rightarrow> int list \<Rightarrow> ras" where
  "push_all s [] = s"
| "push_all s (addr # addrs) = push_all (Ras_push s addr) addrs"

section \<open>Bht: the branch history table\<close>

record bht_entry =
  valid :: bool
  sat_counter :: int

record bht =
  contents :: "bht_entry list"

definition Bht_init :: "int \<Rightarrow> bht" where
  "Bht_init entries = \<lparr>contents = replicate (nat entries) \<lparr>valid = False, sat_counter = 0\<rparr>\<rparr>"

text \<open>\<^verbatim>\<open>%\<close> raises on a table without entries; otherwise its result is a valid index.\<close>

definition Bht_index :: "bht \<Rightarrow> int \<Rightarrow> error + nat" where
  "Bht_index b addr =
     (if length (contents b) = 0 then Inl ZeroDivisionError
      else Inr (nat (drop_bit 1 addr mod int (length (contents b)))))"

definition Bht_predict :: "bht \<Rightarrow> int \<Rightarrow> error + bool option" where
  "Bht_predict b addr =
     (case Bht_index b addr of
        Inl e \<Rightarrow> Inl e
      | Inr i \<Rightarrow>
          (let entry = contents b ! i
           in if valid entry then Inr (Some (sat_counter entry \<ge> 2)) else Inr None))"

definition Bht_resolve :: "bht \<Rightarrow> int \<Rightarrow> bool \<Rightarrow> error + bht" where
  "Bht_resolve b addr taken =
     (case Bht_index b addr of
        Inl e \<Rightarrow> Inl e
      | Inr index \<Rightarrow>
          (let entry = contents b ! index;
               entry = entry\<lparr>valid := True\<rparr>;
               entry = (if taken
                        then (if sat_counter entry < 3
                              then entry\<lparr>sat_counter := sat_counter entry + 1\<rparr> else entry)
                        else (if sat_counter entry > 0
                              then entry\<lparr>sat_counter := sat_counter entry - 1\<rparr> else entry))
           in Inr (b\<lparr>contents := (contents b)[index := entry]\<rparr>)))"

text \<open>
  A sequence of \<^verbatim>\<open>resolve\<close> calls, stopping at the first exception. \<^verbatim>\<open>predict\<close>
  assigns nothing, so it has no place in the sequence. \<open>Bht_counter\<close> reads the counter
  of the slot an address falls into.
\<close>

fun Bht_run :: "bht \<Rightarrow> (int \<times> bool) list \<Rightarrow> error + bht" where
  "Bht_run b [] = Inr b"
| "Bht_run b ((addr, taken) # ops) =
     (case Bht_resolve b addr taken of Inl e \<Rightarrow> Inl e | Inr b' \<Rightarrow> Bht_run b' ops)"

definition Bht_counter :: "bht \<Rightarrow> int \<Rightarrow> error + int" where
  "Bht_counter b addr =
     (case Bht_index b addr of Inl e \<Rightarrow> Inl e | Inr i \<Rightarrow> Inr (sat_counter (contents b ! i)))"

section \<open>FusBusy: the functional units\<close>

datatype Fu = ALU | MUL | BRANCH | LDU | STU

definition to_fu :: "instruction \<Rightarrow> Fu" where
  "to_fu instr =
     (if is_branch instr \<or> is_regjump instr then BRANCH
      else if is_muldiv instr then MUL
      else if is_load instr then LDU
      else if is_store instr then STU
      else ALU)"

record fusbusy =
  has_alu2 :: bool
  alu :: bool
  mul :: bool
  branch :: bool
  ldu :: bool
  stu :: bool
  alu2 :: bool
  issued_mul :: bool

definition FusBusy_init :: "bool \<Rightarrow> fusbusy" where
  "FusBusy_init with_alu2 =
     \<lparr>has_alu2 = with_alu2, alu = False, mul = False, branch = False, ldu = False,
      stu = False, alu2 = False, issued_mul = False\<rparr>"

definition alu2_ready :: "fusbusy \<Rightarrow> bool" where
  "alu2_ready s = (has_alu2 s \<and> \<not> alu2 s)"

fun is_ready :: "fusbusy \<Rightarrow> Fu \<Rightarrow> bool" where
  "is_ready s ALU = (alu2_ready s \<or> \<not> alu s)"
| "is_ready s MUL = (\<not> mul s)"
| "is_ready s BRANCH = (\<not> branch s)"
| "is_ready s LDU = (\<not> ldu s)"
| "is_ready s STU = (\<not> stu s)"

definition is_ready_for :: "fusbusy \<Rightarrow> instruction \<Rightarrow> bool" where
  "is_ready_for s instr = is_ready s (to_fu instr)"

definition issue_mul :: "fusbusy \<Rightarrow> fusbusy" where
  "issue_mul s = s\<lparr>mul := True, issued_mul := True\<rparr>"

definition issue_alu :: "fusbusy \<Rightarrow> error + fusbusy" where
  "issue_alu s =
     (if \<not> alu2_ready s
      then (if alu s then Inl AssertionError else Inr (s\<lparr>alu := True, branch := True\<rparr>))
      else Inr (s\<lparr>alu2 := True\<rparr>))"

definition issue_branch :: "fusbusy \<Rightarrow> fusbusy" where
  "issue_branch s = s\<lparr>alu := True, branch := True, stu := True\<rparr>"

definition issue_ldu :: "fusbusy \<Rightarrow> fusbusy" where
  "issue_ldu s = s\<lparr>ldu := True, stu := True\<rparr>"

definition issue_stu :: "fusbusy \<Rightarrow> fusbusy" where
  "issue_stu s = s\<lparr>stu := True, ldu := True\<rparr>"

definition issue :: "fusbusy \<Rightarrow> instruction \<Rightarrow> error + fusbusy" where
  "issue s instr =
     (case to_fu instr of
        ALU \<Rightarrow> issue_alu s
      | MUL \<Rightarrow> Inr (issue_mul s)
      | BRANCH \<Rightarrow> Inr (issue_branch s)
      | LDU \<Rightarrow> Inr (issue_ldu s)
      | STU \<Rightarrow> Inr (issue_stu s))"

definition FusBusy_cycle :: "fusbusy \<Rightarrow> fusbusy" where
  "FusBusy_cycle s =
     s\<lparr>alu := issued_mul s, mul := False, branch := issued_mul s, ldu := False,
       stu := False, alu2 := False, issued_mul := False\<rparr>"

section \<open>The timed part of a trace and its statistics\<close>

text \<open>Python's \<^verbatim>\<open>needle in haystack\<close> on strings: some suffix starts with the needle.\<close>

fun str_in :: "string \<Rightarrow> string \<Rightarrow> bool" where
  "str_in needle [] = (needle = [])"
| "str_in needle (c # cs) = (prefix needle (c # cs) \<or> str_in needle cs)"

definition is_marker :: "instruction \<Rightarrow> bool" where
  "is_marker instr = str_in ''32951073'' (hex_code instr)"

fun filter_loop :: "bool \<Rightarrow> instruction list \<Rightarrow> instruction list \<Rightarrow> instruction list" where
  "filter_loop accepting filtered [] = filtered"
| "filter_loop accepting filtered (instr # rest) =
     (if is_marker instr then filter_loop (\<not> accepting) filtered rest
      else if accepting then filter_loop accepting (filtered @ [instr]) rest
      else filter_loop accepting filtered rest)"

definition filter_timed_part :: "instruction list \<Rightarrow> instruction list" where
  "filter_timed_part all_instructions = filter_loop False [] all_instructions"

definition count_cycles :: "instruction list \<Rightarrow> error + int" where
  "count_cycles retired =
     (case retired of
        [] \<Rightarrow> Inl IndexError
      | _ \<Rightarrow> (let start_cycle = cycle (hd retired); end_cycle = cycle (last retired)
              in Inr (end_cycle - start_cycle)))"

text \<open>
  \<^verbatim>\<open>print_stats\<close> appends three lines to \<^verbatim>\<open>out.txt\<close>; the record holds the two
  integers it prints. The third value, \<^verbatim>\<open>1000000 / n_cycles\<close>, is a float and is
  left out, but not the exception its division raises.
\<close>

record stats =
  cycle_number :: int
  instruction_number :: nat

definition print_stats :: "instruction list \<Rightarrow> error + stats" where
  "print_stats instructions =
     (let n_instr = length instructions
      in case count_cycles instructions of
           Inl e \<Rightarrow> Inl e
         | Inr n_cycles \<Rightarrow>
             if n_cycles = 0 then Inl ZeroDivisionError
             else Inr \<lparr>cycle_number = n_cycles, instruction_number = n_instr\<rparr>)"

text \<open>\<^verbatim>\<open>main\<close> of \<^verbatim>\<open>cycle_count.py\<close>, from the instructions \<^verbatim>\<open>load_file\<close> found.\<close>

definition main_cycle_count :: "instruction list \<Rightarrow> error + stats" where
  "main_cycle_count instr_queue = print_stats (filter_timed_part instr_queue)"

text \<open>
  \<^verbatim>\<open>main\<close> of \<^verbatim>\<open>compute_accuracy.py\<close>, from the two lists of cycles its parser
  returned: it reports and returns early when either has fewer than two entries.
\<close>

fun compute_deltas :: "int list \<Rightarrow> int list" where
  "compute_deltas (a # b # cycles) = (b - a) # compute_deltas (b # cycles)"
| "compute_deltas cycles = []"

definition compare_deltas :: "int list \<Rightarrow> int list \<Rightarrow> nat" where
  "compare_deltas deltas1 deltas2 = length (filter (\<lambda>(d1, d2). d1 = d2) (zip deltas1 deltas2))"

datatype accuracy_outcome = Not_enough_instructions | Matching_delta_count nat

definition main_compute_accuracy :: "int list \<Rightarrow> int list \<Rightarrow> accuracy_outcome" where
  "main_compute_accuracy cycles1 cycles2 =
     (if length cycles1 < 2 \<or> length cycles2 < 2 then Not_enough_instructions
      else Matching_delta_count (compare_deltas (compute_deltas cycles1) (compute_deltas cycles2)))"

section \<open>Example inputs\<close>

text \<open>
  Concrete instructions and states for the worked examples below: a four-byte
  instruction that is no jump, a two-byte compact jump, and the queue
  \<^verbatim>\<open>IqLen(4)\<close> right after construction.
\<close>

definition plain_instr :: "int \<Rightarrow> string \<Rightarrow> int \<Rightarrow> instruction" where
  "plain_instr addr code cyc =
     \<lparr>address = addr, hex_code = code, cycle = cyc, instr_size = 4, is_compressed = False,
      is_jump = False, is_branch = False, is_regjump = False, is_muldiv = False,
      is_load = False, is_store = False\<rparr>"

definition compact_jump :: "int \<Rightarrow> instruction" where
  "compact_jump addr =
     \<lparr>address = addr, hex_code = ''0xa001'', cycle = 0, instr_size = 2, is_compressed = True,
      is_jump = True, is_branch = False, is_regjump = False, is_muldiv = False,
      is_load = False, is_store = False\<rparr>"

definition fresh_iq4 :: iqlen where
  "fresh_iq4 = \<lparr>fetch_size = 4, iq_debug = False, len = 4, new_fetch = True\<rparr>"

section \<open>Properties of the instruction queue\<close>

subsection \<open>The fetch size is a power of two\<close>

lemma addr_index_mod:
  assumes "fetch_size s = 2 ^ k"
  shows "addr_index s a = a mod fetch_size s"
proof -
  have "a AND (2 ^ k - 1) = take_bit k a"
    by (simp add: take_bit_eq_mask mask_eq_exp_minus_1)
  then show ?thesis
    using assms by (simp add: addr_index_def take_bit_eq_mod)
qed

lemma fetch_size_loop_result:
  "0 < cur \<Longrightarrow> \<exists>j. fetch_size_loop cur n = Some (cur * 2 ^ j) \<and> n \<le> cur * 2 ^ j
      \<and> (0 < j \<longrightarrow> cur * 2 ^ (j - 1) < n)"
proof (induction "nat (n - cur)" arbitrary: cur rule: less_induct)
  case less
  show ?case
  proof (cases "cur < n")
    case False
    then have "fetch_size_loop cur n = Some (cur * 2 ^ 0)"
      by (subst fetch_size_loop.simps) simp
    with False show ?thesis by (intro exI[of _ 0]) simp
  next
    case True
    with less.prems have "nat (n - 2 * cur) < nat (n - cur)" by simp
    from less.hyps[OF this] less.prems
    obtain j where j: "fetch_size_loop (2 * cur) n = Some (2 * cur * 2 ^ j)"
      "n \<le> 2 * cur * 2 ^ j" "0 < j \<longrightarrow> 2 * cur * 2 ^ (j - 1) < n"
      by auto
    have "fetch_size_loop cur n = fetch_size_loop (2 * cur) n"
      using True by (subst fetch_size_loop.simps) (simp add: push_bit_eq_mult mult.commute)
    with j True show ?thesis
      by (intro exI[of _ "Suc j"]) (cases j; simp)
  qed
qed

lemma IqLen_init_shape:
  "\<exists>k. 2 \<le> k \<and> requested \<le> 2 ^ k \<and> (\<forall>j. 2 \<le> j \<longrightarrow> requested \<le> 2 ^ j \<longrightarrow> k \<le> j)
     \<and> IqLen_init requested dbg
         = Some \<lparr>fetch_size = 2 ^ k, iq_debug = dbg, len = 2 ^ k, new_fetch = True\<rparr>"
proof -
  obtain j where j: "fetch_size_loop 4 requested = Some (4 * 2 ^ j)" "requested \<le> 4 * 2 ^ j"
      "0 < j \<longrightarrow> 4 * 2 ^ (j - 1) < requested"
    using fetch_size_loop_result[of 4 requested] by auto
  have p: "(4::int) * 2 ^ i = 2 ^ (i + 2)" for i by simp
  have least: "j + 2 \<le> i" if "2 \<le> i" "requested \<le> 2 ^ i" for i
  proof (cases j)
    case 0
    with that show ?thesis by simp
  next
    case (Suc m)
    with j(3) have "(2::int) ^ (m + 2) < requested" by simp
    with that(2) have "(2::int) ^ (m + 2) < 2 ^ i" by linarith
    then have "m + 2 < i" by (simp only: power_strict_increasing_iff) 
    with Suc show ?thesis by simp
  qed
  show ?thesis
    using j(1,2) least by (intro exI[of _ "j + 2"]) (simp add: IqLen_init_def)
qed

lemma fetch_size_step [simp]: "fetch_size (iq_step s op) = fetch_size s"
  by (cases op)
    (simp_all add: IqLen_fetch_def IqLen_flush_def IqLen_jump_def IqLen_remove_def
      truncate_iq_def Let_def)

lemma fetch_size_run [simp]: "fetch_size (iq_run s ops) = fetch_size s"
  by (induction ops arbitrary: s) simp_all

lemma reachable_pow2:
  assumes "IqLen_init requested dbg = Some s0"
  shows "\<exists>k. 2 \<le> k \<and> fetch_size (iq_run s0 ops) = 2 ^ k"
  using IqLen_init_shape[of requested dbg] assms by auto

lemma has_pow2:
  assumes "fetch_size s = 2 ^ k"
  shows "IqLen_has s instr \<longleftrightarrow>
     instr_size instr \<le> len s -
       (if address instr mod fetch_size s = fetch_size s - 2 \<and> \<not> is_compressed instr
        then fetch_size s - 2 else 0)"
  by (simp add: IqLen_has_def is_crossword_def Let_def addr_index_mod[OF assms])

lemma truncate_iq_rule:
  assumes "fetch_size s = 2 ^ k"
  shows "truncate_iq s idx = s\<lparr>len := truncate_rule (fetch_size s) (len s) idx\<rparr>"
  by (simp add: truncate_iq_def truncate_rule_def Let_def addr_index_mod[OF assms])

lemma remove_pow2:
  assumes "fetch_size s = 2 ^ k"
  shows "len (IqLen_remove s instr) = remove_rule s instr"
    and "new_fetch (IqLen_remove s instr) = (new_fetch s \<and> \<not> is_jump instr)"
proof -
  have fs: "fetch_size (s\<lparr>len := l, new_fetch := b\<rparr>) = 2 ^ k" 
     "fetch_size (s\<lparr>len := l\<rparr>) = 2 ^ k" for l b
    using assms by simp_all
  show "len (IqLen_remove s instr) = remove_rule s instr"
    by (simp add: IqLen_remove_def IqLen_jump_def remove_rule_def Let_def
        truncate_iq_rule[OF fs(1)] truncate_iq_rule[OF fs(2)] addr_index_mod[OF fs(2)])
  show "new_fetch (IqLen_remove s instr) = (new_fetch s \<and> \<not> is_jump instr)"
    by (simp add: IqLen_remove_def IqLen_jump_def Let_def
        truncate_iq_rule[OF fs(1)] truncate_iq_rule[OF fs(2)])
qed

subsection \<open>Bounds on the buffered length\<close>

lemma truncate_rule_0: "0 < fs \<Longrightarrow> truncate_rule fs l 0 = l - l mod fs"
  by (simp add: truncate_rule_def Let_def)

lemma truncate_rule_bounds:
  assumes "0 < fs" "0 \<le> idx" "idx < fs"
  shows "l - fs < truncate_rule fs l idx" and "truncate_rule fs l idx \<le> l"
proof -
  have m: "0 \<le> l mod fs" "l mod fs < fs" using assms(1) by simp_all
  define r where "r = idx - (fs - l mod fs)"
  define t where "t = (if r < 0 then r + fs else r)"
  have eq: "truncate_rule fs l idx = l - t"
    by (simp add: truncate_rule_def Let_def r_def t_def)
  have "0 \<le> t \<and> t < fs"
  proof (cases "r < 0")
    case True
    then have "t = r + fs" by (simp add: t_def)
    with True m assms show ?thesis unfolding r_def by linarith
  next
    case False
    then have "t = r" by (simp add: t_def)
    with False m assms show ?thesis unfolding r_def by linarith
  qed
  then show "l - fs < truncate_rule fs l idx" and "truncate_rule fs l idx \<le> l"
    unfolding eq by linarith+
qed

lemma floor_bound:
  assumes "0 < fs" "- 2 * fs \<le> (l::int)"
  shows "- 2 * fs \<le> l - l mod fs"
proof -
  have "l mod fs = (l + 2 * fs) mod fs" by simp
  also have "\<dots> \<le> l + 2 * fs"
    using assms by (intro zmod_le_nonneg_dividend) simp
  finally show ?thesis by simp
qed

lemma jump_len:
  assumes "fetch_size s = 2 ^ k"
  shows "len (IqLen_jump s) =
     (len s - (if new_fetch s then fetch_size s else 0))
       - (len s - (if new_fetch s then fetch_size s else 0)) mod fetch_size s"
    and "\<not> new_fetch (IqLen_jump s)"
proof -
  have fs: "fetch_size (s\<lparr>len := l, new_fetch := b\<rparr>) = 2 ^ k" for l b
    using assms by simp
  have pos: "0 < fetch_size s" using assms by simp
  show "len (IqLen_jump s) =
     (len s - (if new_fetch s then fetch_size s else 0))
       - (len s - (if new_fetch s then fetch_size s else 0)) mod fetch_size s"
    using pos by (simp add: IqLen_jump_def Let_def truncate_iq_rule[OF fs]
        truncate_iq_rule[OF assms] truncate_rule_0)
  show "\<not> new_fetch (IqLen_jump s)"
    by (simp add: IqLen_jump_def Let_def truncate_iq_def)
qed

lemma has_len:
  assumes "fetch_size s = 2 ^ k" "IqLen_has s instr"
  shows "instr_size instr \<le> len s"
proof (cases "is_crossword s instr")
  case False
  with assms(2) show ?thesis by (simp add: IqLen_has_def Let_def)
next
  case True
  then have "address instr mod 2 ^ k = fetch_size s - 2"
    using addr_index_mod[OF assms(1)] assms(1) by (simp add: is_crossword_def Let_def)
  moreover have "0 \<le> address instr mod (2::int) ^ k" by simp
  ultimately have "2 \<le> fetch_size s" by linarith
  with True assms(2) show ?thesis by (simp add: IqLen_has_def Let_def)
qed

lemma remove_lower:
  assumes fs: "fetch_size s = 2 ^ k" and has: "IqLen_has s instr" and sz: "0 \<le> instr_size instr"
  shows "- 2 * fetch_size s
      \<le> len (IqLen_remove s instr)
          - (if new_fetch (IqLen_remove s instr) then fetch_size s else 0)"
proof -
  let ?fs = "fetch_size s"
  have pos: "0 < ?fs" using fs by simp
  define l1 where "l1 = len s - instr_size instr"
  define l2 where "l2 = truncate_rule ?fs l1 (next_addr instr mod ?fs)"
  have l1: "0 \<le> l1" using has_len[OF fs has] by (simp add: l1_def)
  have "l1 - ?fs < l2"
    unfolding l2_def using pos by (intro truncate_rule_bounds) simp_all
  with l1 have l2: "- ?fs < l2" by linarith
  show ?thesis
  proof (cases "is_jump instr")
    case False
    then have "len (IqLen_remove s instr) = l2"
      by (simp add: remove_pow2(1)[OF fs] remove_rule_def Let_def l1_def l2_def)
    moreover have "new_fetch (IqLen_remove s instr) = new_fetch s"
      using False by (simp add: remove_pow2(2)[OF fs])
    ultimately show ?thesis using l2 pos by simp
  next
    case True
    define l3 where "l3 = (if new_fetch s then l2 - ?fs else l2)"
    have "len (IqLen_remove s instr) = l3 - l3 mod ?fs"
      using True pos
      by (simp add: remove_pow2(1)[OF fs] remove_rule_def Let_def l1_def l2_def l3_def
          truncate_rule_0)
    moreover have "\<not> new_fetch (IqLen_remove s instr)"
      using True by (simp add: remove_pow2(2)[OF fs])
    moreover have "- 2 * ?fs \<le> l3" using l2 pos by (simp add: l3_def)
    ultimately show ?thesis using floor_bound[OF pos, of l3] by simp
  qed
qed

lemma step_lower:
  assumes fs: "fetch_size s = 2 ^ k"
    and inv: "- 2 * fetch_size s \<le> len s - (if new_fetch s then fetch_size s else 0)"
    and g: "iq_guarded s [op]" and sz: "removed_sizes_ok [op]"
  shows "- 2 * fetch_size s
      \<le> len (iq_step s op) - (if new_fetch (iq_step s op) then fetch_size s else 0)"
proof (cases op)
  case Fetch
  have "0 < fetch_size s" using fs by simp
  with inv Fetch show ?thesis by (simp add: IqLen_fetch_def split: if_splits)
next
  case Flush
  have "0 < fetch_size s" using fs by simp
  with Flush show ?thesis by (simp add: IqLen_flush_def)
next
  case Jump
  have "0 < fetch_size s" using fs by simp
  from floor_bound[OF this inv] Jump show ?thesis
    using jump_len[OF fs] by simp
next
  case (Has x)
  with inv show ?thesis by simp
next
  case (Remove instr)
  with g sz remove_lower[OF fs, of instr] show ?thesis by simp
qed

lemma states_lower:
  assumes "fetch_size s = 2 ^ k"
    and "- 2 * fetch_size s \<le> len s - (if new_fetch s then fetch_size s else 0)"
    and "iq_guarded s ops" and "removed_sizes_ok ops"
  shows "\<forall>t \<in> set (iq_states s ops). - 2 * fetch_size t \<le> len t"
  using assms
proof (induction ops arbitrary: s)
  case Nil
  then show ?case by simp
next
  case (Cons op ops)
  have g1: "iq_guarded s [op]" and g2: "iq_guarded (iq_step s op) ops"
    using Cons.prems(3) by (cases op; simp)+
  have z1: "removed_sizes_ok [op]" and z2: "removed_sizes_ok ops"
    using Cons.prems(4) by (cases op; simp)+
  have fs': "fetch_size (iq_step s op) = 2 ^ k" using Cons.prems(1) by simp
  have pos: "0 < fetch_size s" using Cons.prems(1) by simp
  have inv': "- 2 * fetch_size (iq_step s op)
      \<le> len (iq_step s op) - (if new_fetch (iq_step s op) then fetch_size (iq_step s op) else 0)"
    using step_lower[OF Cons.prems(1,2) g1 z1] by (simp only: fetch_size_step)
  have here: "- 2 * fetch_size (iq_step s op) \<le> len (iq_step s op)"
  proof (cases "new_fetch (iq_step s op)")
    case True
    with inv' pos show ?thesis by simp
  next
    case False
    with inv' show ?thesis by simp
  qed
  from Cons.IH[OF fs' inv' g2 z2] here show ?case by simp
qed

subsection \<open>The queue's contract\<close>

text \<open>
  Claim C10. For every requested fetch size the constructor returns, and the new queue
  is not empty: its fetch size is a power of two, at least 4 and at least the requested
  size, and no smaller power of two from 4 upwards is; its buffered length is one fetch
  size; a fresh fetch is marked pending; and \<^verbatim>\<open>has\<close> is already true of every
  instruction at an address that is a multiple of the fetch size whose size is at most
  the fetch size.
\<close>

theorem IqLen_init_fresh:
  "\<exists>s k. IqLen_init requested dbg = Some s \<and> 2 \<le> k \<and> fetch_size s = 2 ^ k
     \<and> requested \<le> fetch_size s
     \<and> (\<forall>j. 2 \<le> j \<longrightarrow> requested \<le> 2 ^ j \<longrightarrow> fetch_size s \<le> 2 ^ j)
     \<and> len s = fetch_size s \<and> new_fetch s
     \<and> (\<forall>instr. address instr mod fetch_size s = 0 \<longrightarrow> instr_size instr \<le> fetch_size s
           \<longrightarrow> IqLen_has s instr)"
proof -
  obtain k where k: "2 \<le> k" "requested \<le> 2 ^ k"
      "\<forall>j. 2 \<le> j \<longrightarrow> requested \<le> 2 ^ j \<longrightarrow> k \<le> j"
      "IqLen_init requested dbg
         = Some \<lparr>fetch_size = 2 ^ k, iq_debug = dbg, len = 2 ^ k, new_fetch = True\<rparr>"
    using IqLen_init_shape[of requested dbg] by blast
  let ?s = "\<lparr>fetch_size = 2 ^ k, iq_debug = dbg, len = 2 ^ k, new_fetch = True\<rparr>"
  have fs: "fetch_size ?s = 2 ^ k" by simp
  have least: "\<forall>j. 2 \<le> j \<longrightarrow> requested \<le> 2 ^ j \<longrightarrow> fetch_size ?s \<le> 2 ^ j"
    using k(3) by (auto intro: power_increasing)
  have "(4::int) \<le> 2 ^ k"
    using power_increasing[OF k(1), of "2::int"] by simp
  then have has: "IqLen_has ?s instr"
    if "address instr mod fetch_size ?s = 0" "instr_size instr \<le> fetch_size ?s" for instr
    using that by (simp add: has_pow2[OF fs])
  show ?thesis
    using k(1,2,4) least has by (intro exI[of _ ?s] exI[of _ k]) simp
qed

theorem IqLen_init_fresh_witness:
  "\<exists>s. IqLen_init 5 False = Some s \<and> fetch_size s = 8 \<and> len s = 8 \<and> new_fetch s
     \<and> 16 mod fetch_size s = 0 \<and> 4 \<le> fetch_size s
     \<and> IqLen_has s (plain_instr 16 ''0x00000013'' 0)"
  using IqLen_init_fresh[of 5 False]
  by (simp add: IqLen_init_def fetch_size_loop.simps IqLen_has_def is_crossword_def
      addr_index_def plain_instr_def Let_def)

text \<open>
  Claim C1. On every queue reached from the constructor by any calls, \<^verbatim>\<open>has\<close> is
  true of an instruction exactly when the buffered length, less \<open>fetch_size - 2\<close> when
  the remainder of the instruction's address by the fetch size is \<open>fetch_size - 2\<close>
  and the instruction is not compressed, is at least the instruction's size.
\<close>

theorem IqLen_has_iff:
  assumes "IqLen_init requested dbg = Some s0"
  shows "IqLen_has (iq_run s0 ops) instr \<longleftrightarrow>
     instr_size instr \<le> len (iq_run s0 ops) -
       (if address instr mod fetch_size (iq_run s0 ops) = fetch_size (iq_run s0 ops) - 2
           \<and> \<not> is_compressed instr
        then fetch_size (iq_run s0 ops) - 2 else 0)"
proof -
  obtain k where "fetch_size (iq_run s0 ops) = 2 ^ k"
    using reachable_pow2[OF assms] by blast
  then show ?thesis by (rule has_pow2)
qed

theorem IqLen_has_iff_witness:
  "IqLen_init 4 False = Some fresh_iq4
   \<and> \<not> IqLen_has (iq_run fresh_iq4 []) (plain_instr 2 ''0x00000013'' 0)
   \<and> IqLen_has (iq_run fresh_iq4 [Fetch]) (plain_instr 2 ''0x00000013'' 0)"
  using IqLen_has_iff[of 4 False fresh_iq4 "[Fetch]" "plain_instr 2 ''0x00000013'' 0"]
  by (simp add: IqLen_init_def fetch_size_loop.simps fresh_iq4_def IqLen_has_def
      is_crossword_def addr_index_def plain_instr_def IqLen_fetch_def Let_def)

text \<open>
  Claim C2. On every queue reached from the constructor, the buffered length after
  \<^verbatim>\<open>remove\<close> is the one the worded rule gives: the size is subtracted, the length
  is truncated towards the offset of the next instruction's address, and for a jump
  one fetch size is given up if a fetch was pending and the length is truncated
  towards offset 0. The fetch size stays, and a pending fetch stays pending unless
  the instruction is a jump.
\<close>

theorem IqLen_remove_follows_rule:
  assumes "IqLen_init requested dbg = Some s0"
  shows "len (IqLen_remove (iq_run s0 ops) instr) = remove_rule (iq_run s0 ops) instr
     \<and> fetch_size (IqLen_remove (iq_run s0 ops) instr) = fetch_size (iq_run s0 ops)
     \<and> new_fetch (IqLen_remove (iq_run s0 ops) instr)
         = (new_fetch (iq_run s0 ops) \<and> \<not> is_jump instr)"
proof -
  obtain k where k: "fetch_size (iq_run s0 ops) = 2 ^ k"
    using reachable_pow2[OF assms] by blast
  have "fetch_size (iq_step (iq_run s0 ops) (Remove instr)) = fetch_size (iq_run s0 ops)"
    by (rule fetch_size_step)
  then show ?thesis
    using remove_pow2[OF k, of instr] by simp
qed

theorem IqLen_remove_follows_rule_witness:
  "IqLen_init 4 False = Some fresh_iq4
   \<and> len (IqLen_remove (iq_run fresh_iq4 [Fetch]) (compact_jump 6)) = 0
   \<and> remove_rule (iq_run fresh_iq4 [Fetch]) (compact_jump 6) = 0"
  using IqLen_remove_follows_rule[of 4 False fresh_iq4 "[Fetch]" "compact_jump 6"]
  by (simp add: IqLen_init_def fetch_size_loop.simps fresh_iq4_def remove_rule_def
      truncate_rule_def compact_jump_def next_addr_def IqLen_fetch_def Let_def)

text \<open>
  Claim C3 fails as stated. On the queue \<^verbatim>\<open>IqLen(4)\<close>, \<^verbatim>\<open>has\<close> is true of a
  two-byte compact jump at address 0, and removing it leaves a buffered length of -4:
  2 bytes for the instruction, 4 for the lost fetch, and 2 more to come back to a
  fetch-word boundary.
\<close>

theorem iq_len_negative_counterexample:
  "IqLen_init 4 False = Some fresh_iq4
   \<and> iq_guarded fresh_iq4 [Remove (compact_jump 0)]
   \<and> iq_states fresh_iq4 [Remove (compact_jump 0)]
       = [\<lparr>fetch_size = 4, iq_debug = False, len = - 4, new_fetch = False\<rparr>]"
  by (simp add: IqLen_init_def fetch_size_loop.simps fresh_iq4_def IqLen_has_def
      is_crossword_def addr_index_def compact_jump_def next_addr_def IqLen_remove_def
      IqLen_jump_def truncate_iq_def Let_def)

text \<open>
  Claim C3, amended. From the constructor on, through any calls in which
  \<^verbatim>\<open>remove\<close> only comes when \<^verbatim>\<open>has\<close> is true, and only for instructions whose
  size is not negative, the buffered length after each call is at least minus twice
  the fetch size.
\<close>

theorem iq_len_lower_bound:
  assumes "IqLen_init requested dbg = Some s0" and "iq_guarded s0 ops"
    and "removed_sizes_ok ops"
  shows "\<forall>s \<in> set (iq_states s0 ops). - 2 * fetch_size s \<le> len s"
proof -
  obtain k where k: "IqLen_init requested dbg
         = Some \<lparr>fetch_size = 2 ^ k, iq_debug = dbg, len = 2 ^ k, new_fetch = True\<rparr>"
    using IqLen_init_shape[of requested dbg] by blast
  with assms(1) have s0: "s0 = \<lparr>fetch_size = 2 ^ k, iq_debug = dbg, len = 2 ^ k, new_fetch = True\<rparr>"
    by simp
  have fs: "fetch_size s0 = 2 ^ k" by (simp add: s0)
  have inv: "- 2 * fetch_size s0 \<le> len s0 - (if new_fetch s0 then fetch_size s0 else 0)"
    by (simp add: s0)
  show ?thesis by (rule states_lower[OF fs inv assms(2,3)])
qed

theorem iq_len_lower_bound_witness:
  "IqLen_init 4 False = Some fresh_iq4
   \<and> iq_guarded fresh_iq4 [Remove (compact_jump 0), Fetch]
   \<and> removed_sizes_ok [Remove (compact_jump 0), Fetch]
   \<and> map len (iq_states fresh_iq4 [Remove (compact_jump 0), Fetch]) = [- 4, 0]
   \<and> list_all (\<lambda>s. - 2 * fetch_size s \<le> len s)
         (iq_states fresh_iq4 [Remove (compact_jump 0), Fetch])"
  using iq_len_lower_bound[of 4 False fresh_iq4 "[Remove (compact_jump 0), Fetch]"]
  by (simp add: IqLen_init_def fetch_size_loop.simps fresh_iq4_def IqLen_has_def
      is_crossword_def addr_index_def compact_jump_def next_addr_def IqLen_remove_def
      IqLen_jump_def IqLen_fetch_def truncate_iq_def Let_def)

section \<open>Properties of the return address stack\<close>

lemma depth_push [simp]: "depth (Ras_push s a) = depth s"
  by (simp add: Ras_push_def Let_def)

lemma depth_drop [simp]: "depth (Ras_drop s) = depth s"
  by (simp add: Ras_drop_def)

lemma depth_step [simp]: "depth (ras_step s op) = depth s"
  by (cases op) (simp_all add: Ras_resolve_def Let_def)

lemma depth_run [simp]: "depth (ras_run s ops) = depth s"
  by (induction ops arbitrary: s) simp_all

lemma stack_push:
  "stack (Ras_push s a) =
     (if int (length (stack s @ [a])) > depth s then tl (stack s @ [a]) else stack s @ [a])"
  by (simp add: Ras_push_def Let_def)

lemma push_bounded:
  assumes "0 \<le> depth s" "int (length (stack s)) \<le> depth s"
  shows "int (length (stack (Ras_push s a))) \<le> depth s"
  using assms by (simp add: stack_push)

lemma drop_bounded:
  assumes "int (length (stack s)) \<le> depth s"
  shows "int (length (stack (Ras_drop s))) \<le> depth s"
  using assms by (cases "stack s") (simp_all add: Ras_drop_def)

lemma step_bounded:
  assumes "0 \<le> depth s" "int (length (stack s)) \<le> depth s"
  shows "int (length (stack (ras_step s op))) \<le> depth s"
proof (cases op)
  case (Push a)
  with assms show ?thesis by (simp add: push_bounded)
next
  case Drop
  with assms show ?thesis by (simp add: drop_bounded)
next
  case Read
  with assms show ?thesis by simp
next
  case (Resolve ret call nxt)
  have d: "int (length (stack (Ras_drop s))) \<le> depth (Ras_drop s)" "0 \<le> depth (Ras_drop s)"
    using assms by (simp_all add: drop_bounded)
  show ?thesis
    using Resolve assms d push_bounded[OF assms, of nxt] push_bounded[OF d(2,1), of nxt]
    by (cases ret; cases call) (simp_all add: Ras_resolve_def Let_def)
qed

lemma run_bounded:
  assumes "0 \<le> depth s" "int (length (stack s)) \<le> depth s"
  shows "int (length (stack (ras_run s ops))) \<le> depth s"
  using assms
proof (induction ops arbitrary: s)
  case Nil
  then show ?case by simp
next
  case (Cons op ops)
  from Cons.IH[of "ras_step s op"] step_bounded[OF Cons.prems, of op] Cons.prems(1)
  show ?case by simp
qed

lemma push_keeps_latest:
  assumes "int (length (stack s)) \<le> depth s"
  shows "stack (Ras_push s a) = drop (length (stack s @ [a]) - nat (depth s)) (stack s @ [a])"
proof (cases "int (length (stack s @ [a])) > depth s")
  case True
  with assms have "length (stack s @ [a]) - nat (depth s) = 1" by simp
  with True show ?thesis by (simp only: stack_push if_True drop_Suc drop_0 One_nat_def)
next
  case False
  then have "length (stack s @ [a]) - nat (depth s) = 0" by simp
  with False show ?thesis by (simp only: stack_push if_False drop_0)
qed

lemma push_all_keeps_latest:
  assumes "0 \<le> depth s" "int (length (stack s)) \<le> depth s"
  shows "stack (push_all s xs)
     = drop (length (stack s @ xs) - nat (depth s)) (stack s @ xs)"
  using assms
proof (induction xs arbitrary: s)
  case Nil
  then show ?case by simp
next
  case (Cons x xs)
  let ?t = "Ras_push s x"
  have b: "int (length (stack ?t)) \<le> depth ?t" "0 \<le> depth ?t"
    using push_bounded[OF Cons.prems] Cons.prems(1) by simp_all
  have "stack (push_all ?t xs) = drop (length (stack ?t @ xs) - nat (depth s)) (stack ?t @ xs)"
    using Cons.IH[OF b(2) b(1)] by simp
  also have "\<dots> = drop (length (stack s @ x # xs) - nat (depth s)) (stack s @ x # xs)"
  proof (cases "int (length (stack s @ [x])) > depth s")
    case True
    with Cons.prems have l: "length (stack s) = nat (depth s)" by simp
    from True have t: "stack ?t = tl (stack s @ [x])" by (simp add: stack_push)
    have "stack ?t @ xs = tl (stack s @ x # xs)"
      unfolding t by (cases "stack s") simp_all
    moreover have "length (stack ?t @ xs) - nat (depth s) = length xs"
      unfolding t using l by simp
    moreover have "length (stack s @ x # xs) - nat (depth s) = Suc (length xs)"
      using l by simp
    ultimately show ?thesis by (simp only: drop_Suc)
  next
    case False
    then have "stack ?t = stack s @ [x]" by (simp add: stack_push)
    then show ?thesis by simp
  qed
  finally show ?case by simp
qed

lemma init_bounded:
  assumes "1 \<le> d"
  shows "0 \<le> depth (Ras_init d dbg)"
    "int (length (stack (Ras_init d dbg))) \<le> depth (Ras_init d dbg)"
  using assms by (simp_all add: Ras_init_def)

lemma run_empty:
  assumes "depth s \<le> 0" "stack s = []"
  shows "stack (ras_run s ops) = []"
  using assms
proof (induction ops arbitrary: s)
  case Nil
  then show ?case by simp
next
  case (Cons op ops)
  have p: "stack (Ras_push t a) = []" if "depth t \<le> 0" "stack t = []" for t a
    using that by (simp add: stack_push)
  have d: "stack (Ras_drop t) = []" if "stack t = []" for t
    using that by (simp add: Ras_drop_def)
  have "stack (ras_step s op) = []"
    using Cons.prems p[of s] p[of "Ras_drop s"] d[of s]
    by (cases op) (simp_all add: Ras_resolve_def Let_def)
  with Cons.IH[of "ras_step s op"] Cons.prems(1) show ?case by simp
qed

lemma push_drop_read:
  assumes "1 \<le> depth s"
  shows "Ras_read (Ras_drop (Ras_push s a)) = Some a"
proof (cases "stack s")
  case Nil
  with assms show ?thesis by (simp add: Ras_read_def Ras_drop_def Ras_push_def Let_def)
next
  case (Cons x xs)
  then show ?thesis by (simp add: Ras_read_def Ras_drop_def Ras_push_def Let_def)
qed

text \<open>
  Claim C5. On a stack constructed with depth \<open>d\<close>, at least 1, and used in any way,
  \<^verbatim>\<open>push\<close> appends the address and drops the bottom entry when the size then exceeds
  \<open>d - 1\<close>; the stack never holds more than \<open>d - 1\<close> addresses; and after pushing \<open>d\<close>
  addresses and one more, all distinct, onto the new stack, the first address pushed
  is no longer on it: the stack holds the last \<open>d - 1\<close> of them.
\<close>

theorem Ras_push_evicts_oldest:
  assumes "1 \<le> d" and "s = ras_run (Ras_init d dbg) ops"
  shows "stack (Ras_push s addr)
       = (if int (length (stack s @ [addr])) > d - 1 then tl (stack s @ [addr])
          else stack s @ [addr])
     \<and> int (length (stack s)) \<le> d - 1
     \<and> (length xs = nat d \<and> distinct (xs @ [y])
          \<longrightarrow> stack (push_all (Ras_init d dbg) (xs @ [y])) = drop 2 (xs @ [y])
            \<and> hd xs \<notin> set (stack (push_all (Ras_init d dbg) (xs @ [y]))))"
proof -
  have dep: "depth s = d - 1" by (simp add: assms(2) Ras_init_def)
  note ib = init_bounded[OF assms(1), of dbg]
  have a: "stack (Ras_push s addr)
       = (if int (length (stack s @ [addr])) > d - 1 then tl (stack s @ [addr])
          else stack s @ [addr])"
    using stack_push[of s addr] by (simp only: dep)
  have b: "int (length (stack s)) \<le> d - 1"
    using run_bounded[OF ib, of ops] dep
    by (simp add: assms(2))
  have c: "stack (push_all (Ras_init d dbg) (xs @ [y])) = drop 2 (xs @ [y])
      \<and> hd xs \<notin> set (stack (push_all (Ras_init d dbg) (xs @ [y])))"
    if len: "length xs = nat d" and dis: "distinct (xs @ [y])"
  proof -
    have "length (xs @ [y]) - nat (d - 1) = 2" using len assms(1) by simp
    then have st: "stack (push_all (Ras_init d dbg) (xs @ [y])) = drop 2 (xs @ [y])"
      using push_all_keeps_latest[OF ib, of "xs @ [y]"]
      by (simp add: Ras_init_def)
    from len assms(1) obtain x xs' where xs: "xs = x # xs'" by (cases xs) auto
    with dis have "x \<notin> set (xs' @ [y])" by simp
    moreover have "set (drop 2 (xs @ [y])) \<subseteq> set (xs' @ [y])"
      using set_drop_subset[of 1 "xs' @ [y]"] by (simp add: xs numeral_2_eq_2)
    ultimately have "hd xs \<notin> set (drop 2 (xs @ [y]))" using xs by auto
    with st show ?thesis by simp
  qed
  from a b c show ?thesis by blast
qed

theorem Ras_push_evicts_oldest_witness:
  "(1::int) \<le> 3
   \<and> stack (ras_run (Ras_init 3 False) [Push 7, Push 8, Drop, Push 9]) = [7, 9]
   \<and> stack (Ras_push (ras_run (Ras_init 3 False) [Push 7, Push 8, Drop, Push 9]) 5) = [9, 5]
   \<and> length [10, 20, 30 :: int] = nat 3 \<and> distinct ([10, 20, 30] @ [40 :: int])
   \<and> stack (push_all (Ras_init 3 False) ([10, 20, 30] @ [40])) = [30, 40]
   \<and> hd [10, 20, 30] \<notin> set (stack (push_all (Ras_init 3 False) ([10, 20, 30] @ [40])))"
  using Ras_push_evicts_oldest[of 3 "ras_run (Ras_init 3 False) [Push 7, Push 8, Drop, Push 9]"
      False "[Push 7, Push 8, Drop, Push 9]" 5 "[10, 20, 30]" 40]
  by (simp add: Ras_init_def Ras_push_def Ras_drop_def Let_def)

text \<open>
  Claim C6 fails as stated. A stack constructed with depth 1 keeps nothing:
  \<^verbatim>\<open>push(5)\<close>, \<^verbatim>\<open>drop()\<close>, \<^verbatim>\<open>read()\<close> returns none, not 5.
\<close>

theorem Ras_read_counterexample:
  "Ras_read (Ras_drop (Ras_push (Ras_init 1 False) 5)) = None"
  by (simp add: Ras_init_def Ras_push_def Ras_drop_def Ras_read_def Let_def)

text \<open>
  Claim C6, amended. On every stack reached from the constructor, \<^verbatim>\<open>read\<close> returns
  the register \<^verbatim>\<open>last_dropped\<close> and changes nothing; \<^verbatim>\<open>push\<close> leaves the register as
  it is; \<^verbatim>\<open>drop\<close> on a stack that is not empty stores the top and removes it, and on
  an empty stack stores none; \<^verbatim>\<open>drop\<close> then \<^verbatim>\<open>read\<close> on the new stack returns
  none; and \<^verbatim>\<open>push(a)\<close>, \<^verbatim>\<open>drop()\<close>, \<^verbatim>\<open>read()\<close> returns \<open>a\<close> when the stack
  was constructed with depth 2 or more, and none when with depth 1 or less.
\<close>

theorem Ras_read_last_dropped:
  assumes "s = ras_run (Ras_init d dbg) ops"
  shows "Ras_read s = last_dropped s \<and> ras_step s Read = s
     \<and> last_dropped (Ras_push s a) = last_dropped s
     \<and> (stack s \<noteq> [] \<longrightarrow> last_dropped (Ras_drop s) = Some (last (stack s))
            \<and> stack (Ras_drop s) = butlast (stack s))
     \<and> (stack s = [] \<longrightarrow> last_dropped (Ras_drop s) = None)
     \<and> Ras_read (Ras_drop (Ras_init d dbg)) = None
     \<and> (2 \<le> d \<longrightarrow> Ras_read (Ras_drop (Ras_push s a)) = Some a)
     \<and> (d \<le> 1 \<longrightarrow> Ras_read (Ras_drop (Ras_push s a)) = None)"
proof -
  have dep: "depth s = d - 1" by (simp add: assms Ras_init_def)
  have r: "Ras_read s = last_dropped s"
    by (simp add: Ras_read_def split: option.splits)
  have p: "last_dropped (Ras_push s a) = last_dropped s"
    by (simp add: Ras_push_def Let_def)
  have dr: "stack s \<noteq> [] \<longrightarrow> last_dropped (Ras_drop s) = Some (last (stack s))
            \<and> stack (Ras_drop s) = butlast (stack s)"
    "stack s = [] \<longrightarrow> last_dropped (Ras_drop s) = None"
    by (simp_all add: Ras_drop_def)
  have e: "Ras_read (Ras_drop (Ras_init d dbg)) = None"
    by (simp add: Ras_init_def Ras_drop_def Ras_read_def)
  have big: "Ras_read (Ras_drop (Ras_push s a)) = Some a" if "2 \<le> d"
    using that dep by (intro push_drop_read) simp
  have small: "Ras_read (Ras_drop (Ras_push s a)) = None" if "d \<le> 1"
  proof -
    have "stack s = []"
      unfolding assms using that by (intro run_empty) (simp_all add: Ras_init_def)
    with that dep show ?thesis
      by (simp add: Ras_read_def Ras_drop_def Ras_push_def Let_def)
  qed
  from r p dr e big small show ?thesis by simp
qed

theorem Ras_read_last_dropped_witness:
  "Ras_read (ras_run (Ras_init 2 False) [Push 7, Drop, Push 8, Read]) = Some 7
   \<and> stack (ras_run (Ras_init 2 False) [Push 7, Drop, Push 8, Read]) = [8]
   \<and> last_dropped (Ras_drop (ras_run (Ras_init 2 False) [Push 7, Drop, Push 8, Read])) = Some 8
   \<and> stack (ras_run (Ras_init 2 False) [Drop]) = []
   \<and> last_dropped (Ras_drop (ras_run (Ras_init 2 False) [Push 7, Drop])) = None
   \<and> (2::int) \<le> 2
   \<and> Ras_read (Ras_drop (Ras_push (ras_run (Ras_init 2 False) [Push 7, Drop, Push 8, Read]) 9))
       = Some 9"
  using Ras_read_last_dropped[of "ras_run (Ras_init 2 False) [Push 7, Drop, Push 8, Read]"
      2 False "[Push 7, Drop, Push 8, Read]" 9]
  by (simp add: Ras_init_def Ras_push_def Ras_drop_def Ras_read_def Let_def)

section \<open>Properties of the branch history table\<close>

lemma Bht_index_ok:
  assumes "contents b \<noteq> []"
  shows "Bht_index b a = Inr (nat (drop_bit 1 a mod int (length (contents b))))"
    and "nat (drop_bit 1 a mod int (length (contents b))) < length (contents b)"
proof -
  have pos: "0 < int (length (contents b))" using assms by simp
  show "Bht_index b a = Inr (nat (drop_bit 1 a mod int (length (contents b))))"
    using assms by (simp add: Bht_index_def)
  have "drop_bit 1 a mod int (length (contents b)) < int (length (contents b))"
    using pos by (rule pos_mod_bound)
  moreover have "0 \<le> drop_bit 1 a mod int (length (contents b))"
    using pos by (rule pos_mod_sign)
  ultimately show "nat (drop_bit 1 a mod int (length (contents b))) < length (contents b)"
    by linarith
qed

lemma Bht_resolve_ok:
  assumes "contents b \<noteq> []"
  shows "\<exists>b'. Bht_resolve b a t = Inr b'
     \<and> length (contents b') = length (contents b)
     \<and> (\<forall>i < length (contents b). contents b' ! i =
          (if Bht_index b a = Inr i
           then \<lparr>valid = True,
                 sat_counter =
                   (let c = sat_counter (contents b ! i)
                    in if t then (if c < 3 then c + 1 else c)
                       else (if c > 0 then c - 1 else c))\<rparr>
           else contents b ! i))"
  using Bht_index_ok[OF assms, of a]
  by (simp add: Bht_resolve_def Let_def nth_list_update)

lemma Bht_predict_ok:
  assumes "contents b \<noteq> []" "Bht_index b a = Inr i"
  shows "Bht_predict b a =
     Inr (if valid (contents b ! i) then Some (sat_counter (contents b ! i) \<ge> 2) else None)"
  using assms(2) by (simp add: Bht_predict_def Let_def)

lemma Bht_counter_ok:
  assumes "Bht_index b a = Inr i"
  shows "Bht_counter b a = Inr (sat_counter (contents b ! i))"
  using assms by (simp add: Bht_counter_def)

lemma Bht_index_length:
  assumes "length (contents b') = length (contents b)"
  shows "Bht_index b' a = Bht_index b a"
  using assms by (simp add: Bht_index_def)

lemma Bht_resolve_counter:
  assumes ne: "contents b \<noteq> []"
    and rng: "\<forall>e \<in> set (contents b). 0 \<le> sat_counter e \<and> sat_counter e \<le> 3"
  shows "\<exists>b' c. Bht_resolve b a t = Inr b' \<and> Bht_counter b a = Inr c
     \<and> 0 \<le> c \<and> c \<le> 3
     \<and> Bht_counter b' a = Inr (if t then min 3 (c + 1) else max 0 (c - 1))
     \<and> Bht_predict b' a = Inr (Some ((if t then min 3 (c + 1) else max 0 (c - 1)) \<ge> 2))
     \<and> contents b' \<noteq> []
     \<and> length (contents b') = length (contents b)
     \<and> (\<forall>e \<in> set (contents b'). 0 \<le> sat_counter e \<and> sat_counter e \<le> 3)
     \<and> (\<forall>i < length (contents b). valid (contents b' ! i)
            \<longleftrightarrow> valid (contents b ! i) \<or> Bht_index b a = Inr i)"
proof -
  let ?i = "nat (drop_bit 1 a mod int (length (contents b)))"
  have idx: "Bht_index b a = Inr ?i" "?i < length (contents b)"
    using Bht_index_ok[OF ne, of a] by simp_all
  define c where "c = sat_counter (contents b ! ?i)"
  have c: "0 \<le> c" "c \<le> 3" using rng idx(2) by (simp_all add: c_def)
  obtain b' where b': "Bht_resolve b a t = Inr b'"
      "length (contents b') = length (contents b)"
      "\<forall>i < length (contents b). contents b' ! i =
          (if Bht_index b a = Inr i
           then \<lparr>valid = True,
                 sat_counter =
                   (let c = sat_counter (contents b ! i)
                    in if t then (if c < 3 then c + 1 else c)
                       else (if c > 0 then c - 1 else c))\<rparr>
           else contents b ! i)"
    using Bht_resolve_ok[OF ne, of a t] by blast
  have ne': "contents b' \<noteq> []" using b'(2) ne by auto
  have idx': "Bht_index b' a = Inr ?i"
    using Bht_index_ok(1)[OF ne', of a] b'(2) by simp
  have new: "contents b' ! ?i = \<lparr>valid = True,
      sat_counter = (if t then min 3 (c + 1) else max 0 (c - 1))\<rparr>"
    using b'(3) idx c by (simp add: c_def Let_def min_def max_def)
  have cnt: "Bht_counter b a = Inr c" using idx(1) by (simp add: Bht_counter_def c_def)
  have cnt': "Bht_counter b' a = Inr (if t then min 3 (c + 1) else max 0 (c - 1))"
    using idx' new by (simp add: Bht_counter_def)
  have prd: "Bht_predict b' a = Inr (Some ((if t then min 3 (c + 1) else max 0 (c - 1)) \<ge> 2))"
    using idx' new by (simp add: Bht_predict_def Let_def)
  have rng': "\<forall>e \<in> set (contents b'). 0 \<le> sat_counter e \<and> sat_counter e \<le> 3"
  proof
    fix e assume "e \<in> set (contents b')"
    then obtain i where i: "i < length (contents b')" "e = contents b' ! i"
      by (auto simp: in_set_conv_nth)
    show "0 \<le> sat_counter e \<and> sat_counter e \<le> 3"
    proof (cases "i = ?i")
      case True
      with i new c show ?thesis by (simp add: min_def max_def)
    next
      case False
      with i b'(2,3) idx(1) have "e = contents b ! i" by simp
      with i(1) b'(2) rng show ?thesis by simp
    qed
  qed
  have val: "\<forall>i < length (contents b). valid (contents b' ! i)
            \<longleftrightarrow> valid (contents b ! i) \<or> Bht_index b a = Inr i"
    using b'(3) by simp
  from b'(1,2) cnt c cnt' prd ne' rng' val show ?thesis by blast
qed

lemma Bht_run_ok:
  assumes "contents b \<noteq> []"
    and "\<forall>e \<in> set (contents b). 0 \<le> sat_counter e \<and> sat_counter e \<le> 3"
  shows "\<exists>b'. Bht_run b ops = Inr b' \<and> contents b' \<noteq> []
     \<and> length (contents b') = length (contents b)
     \<and> (\<forall>e \<in> set (contents b'). 0 \<le> sat_counter e \<and> sat_counter e \<le> 3)
     \<and> (\<forall>i < length (contents b). valid (contents b' ! i)
            \<longleftrightarrow> valid (contents b ! i) \<or> (\<exists>op \<in> set ops. Bht_index b (fst op) = Inr i))"
  using assms
proof (induction ops arbitrary: b)
  case Nil
  then show ?case by simp
next
  case (Cons op ops)
  obtain a t where op: "op = (a, t)" by (cases op)
  obtain b1 where b1: "Bht_resolve b a t = Inr b1" "contents b1 \<noteq> []"
      "length (contents b1) = length (contents b)"
      "\<forall>e \<in> set (contents b1). 0 \<le> sat_counter e \<and> sat_counter e \<le> 3"
      "\<forall>i < length (contents b). valid (contents b1 ! i)
            \<longleftrightarrow> valid (contents b ! i) \<or> Bht_index b a = Inr i"
    using Bht_resolve_counter[OF Cons.prems, of a t] by blast
  obtain b' where b': "Bht_run b1 ops = Inr b'" "contents b' \<noteq> []"
      "length (contents b') = length (contents b1)"
      "\<forall>e \<in> set (contents b'). 0 \<le> sat_counter e \<and> sat_counter e \<le> 3"
      "\<forall>i < length (contents b1). valid (contents b' ! i)
            \<longleftrightarrow> valid (contents b1 ! i) \<or> (\<exists>op \<in> set ops. Bht_index b1 (fst op) = Inr i)"
    using Cons.IH[OF b1(2,4)] by blast
  have same: "Bht_index b1 x = Bht_index b x" for x
    by (rule Bht_index_length[OF b1(3)])
  have run: "Bht_run b (op # ops) = Inr b'" using b1(1) b'(1) by (simp add: op)
  have val: "\<forall>i < length (contents b). valid (contents b' ! i)
            \<longleftrightarrow> valid (contents b ! i) \<or> (\<exists>op \<in> set (op # ops). Bht_index b (fst op) = Inr i)"
    using b'(5) b1(3,5) by (auto simp: same op)
  from run b'(2,4) b'(3)[unfolded b1(3)] val show ?case by blast
qed

lemma Bht_run_same:
  assumes "contents b \<noteq> []"
    and "\<forall>e \<in> set (contents b). 0 \<le> sat_counter e \<and> sat_counter e \<le> 3"
  shows "\<exists>b' c. Bht_run b (replicate n (a, t)) = Inr b' \<and> Bht_counter b a = Inr c
     \<and> Bht_counter b' a = Inr (if t then min 3 (c + int n) else max 0 (c - int n))"
  using assms
proof (induction n arbitrary: b)
  case 0
  let ?i = "nat (drop_bit 1 a mod int (length (contents b)))"
  have i: "Bht_index b a = Inr ?i" "?i < length (contents b)"
    using Bht_index_ok[OF "0.prems"(1), of a] by simp_all
  have "0 \<le> sat_counter (contents b ! ?i) \<and> sat_counter (contents b ! ?i) \<le> 3"
    using "0.prems"(2) i(2) by simp
  then show ?case
    by (simp add: Bht_counter_ok[OF i(1)] min_def max_def)
next
  case (Suc n)
  obtain b1 c where b1: "Bht_resolve b a t = Inr b1" "Bht_counter b a = Inr c"
      "Bht_counter b1 a = Inr (if t then min 3 (c + 1) else max 0 (c - 1))"
      "contents b1 \<noteq> []"
      "\<forall>e \<in> set (contents b1). 0 \<le> sat_counter e \<and> sat_counter e \<le> 3"
    using Bht_resolve_counter[OF Suc.prems, of a t] by blast
  obtain b' where b': "Bht_run b1 (replicate n (a, t)) = Inr b'"
      "Bht_counter b' a = Inr (if t then min 3 ((if t then min 3 (c + 1) else max 0 (c - 1)) + int n)
                                 else max 0 ((if t then min 3 (c + 1) else max 0 (c - 1)) - int n))"
    using Suc.IH[OF b1(4,5)] b1(3) by auto
  have "Bht_run b (replicate (Suc n) (a, t)) = Inr b'"
    using b1(1) b'(1) by simp
  moreover have "Bht_counter b' a
      = Inr (if t then min 3 (c + int (Suc n)) else max 0 (c - int (Suc n)))"
    using b'(2) by (cases t) (simp_all add: min_def max_def)
  ultimately show ?case using b1(2) by blast
qed

lemma Bht_init_ok:
  assumes "0 < entries"
  shows "contents (Bht_init entries) \<noteq> []"
    and "\<forall>e \<in> set (contents (Bht_init entries)). 0 \<le> sat_counter e \<and> sat_counter e \<le> 3"
    and "i < length (contents (Bht_init entries)) \<Longrightarrow> \<not> valid (contents (Bht_init entries) ! i)"
  using assms by (simp_all add: Bht_init_def)

text \<open>
  Claim C4. On a table with at least one entry, any sequence of \<^verbatim>\<open>resolve\<close> calls
  runs without an exception, and then for every address: \<^verbatim>\<open>predict\<close> returns none
  exactly when no call of the sequence fell into the address's slot; every counter is
  between 0 and 3; one more \<^verbatim>\<open>resolve\<close> of the address adds 1 to its slot's counter,
  stopping at 3, when taken, and subtracts 1, stopping at 0, when not; four taken
  resolutions in a row leave the counter at 3 and the prediction taken, and four not
  taken leave it at 0 and the prediction not taken.
\<close>

theorem Bht_predict_resolve:
  assumes "0 < entries"
  shows "\<exists>b c. Bht_run (Bht_init entries) ops = Inr b
     \<and> (Bht_predict b a = Inr None
          \<longleftrightarrow> \<not> (\<exists>op \<in> set ops.
                   Bht_index (Bht_init entries) (fst op) = Bht_index (Bht_init entries) a))
     \<and> (\<forall>e \<in> set (contents b). 0 \<le> sat_counter e \<and> sat_counter e \<le> 3)
     \<and> Bht_counter b a = Inr c
     \<and> (\<exists>b'. Bht_resolve b a True = Inr b' \<and> Bht_counter b' a = Inr (min 3 (c + 1)))
     \<and> (\<exists>b'. Bht_resolve b a False = Inr b' \<and> Bht_counter b' a = Inr (max 0 (c - 1)))
     \<and> (\<exists>b'. Bht_run b (replicate 4 (a, True)) = Inr b' \<and> Bht_counter b' a = Inr 3
            \<and> Bht_predict b' a = Inr (Some True))
     \<and> (\<exists>b'. Bht_run b (replicate 4 (a, False)) = Inr b' \<and> Bht_counter b' a = Inr 0
            \<and> Bht_predict b' a = Inr (Some False))"
proof -
  let ?b0 = "Bht_init entries"
  note b0 = Bht_init_ok[OF assms]
  obtain b where b: "Bht_run ?b0 ops = Inr b" "contents b \<noteq> []"
      "length (contents b) = length (contents ?b0)"
      "\<forall>e \<in> set (contents b). 0 \<le> sat_counter e \<and> sat_counter e \<le> 3"
      "\<forall>i < length (contents ?b0). valid (contents b ! i)
            \<longleftrightarrow> valid (contents ?b0 ! i) \<or> (\<exists>op \<in> set ops. Bht_index ?b0 (fst op) = Inr i)"
    using Bht_run_ok[OF b0(1,2), of ops] by blast
  let ?i = "nat (drop_bit 1 a mod int (length (contents ?b0)))"
  have i0: "Bht_index ?b0 a = Inr ?i" "?i < length (contents ?b0)"
    using Bht_index_ok[OF b0(1), of a] by simp_all
  have ib: "Bht_index b a = Inr ?i"
    using Bht_index_length[OF b(3), of a] i0(1) by simp
  have "valid (contents b ! ?i) \<longleftrightarrow> (\<exists>op \<in> set ops. Bht_index ?b0 (fst op) = Inr ?i)"
    using b(5) i0(2) b0(3) by simp
  then have unknown: "Bht_predict b a = Inr None
      \<longleftrightarrow> \<not> (\<exists>op \<in> set ops. Bht_index ?b0 (fst op) = Bht_index ?b0 a)"
    by (simp add: Bht_predict_ok[OF b(2) ib] i0(1))
  obtain c where c: "Bht_counter b a = Inr c" "0 \<le> c" "c \<le> 3"
      "\<exists>b'. Bht_resolve b a True = Inr b' \<and> Bht_counter b' a = Inr (min 3 (c + 1))"
  proof -
    obtain b' c where "Bht_resolve b a True = Inr b'" "Bht_counter b a = Inr c" "0 \<le> c" "c \<le> 3"
        "Bht_counter b' a = Inr (if True then min 3 (c + 1) else max 0 (c - 1))"
      using Bht_resolve_counter[OF b(2,4), of a True] by blast
    then show ?thesis by (intro that[of c]) auto
  qed
  have down: "\<exists>b'. Bht_resolve b a False = Inr b' \<and> Bht_counter b' a = Inr (max 0 (c - 1))"
    using Bht_resolve_counter[OF b(2,4), of a False] c(1) by auto
  have four: "\<exists>b'. Bht_run b (replicate 4 (a, t)) = Inr b'
      \<and> Bht_counter b' a = Inr (if t then 3 else 0)
      \<and> Bht_predict b' a = Inr (Some t)" for t
  proof -
    obtain b' where b': "Bht_run b (replicate 4 (a, t)) = Inr b'"
        "Bht_counter b' a = Inr (if t then min 3 (c + int 4) else max 0 (c - int 4))"
      using Bht_run_same[OF b(2,4), of 4 a t] c(1) by auto
    have cnt: "Bht_counter b' a = Inr (if t then 3 else 0)"
      using b'(2) c(2,3) by (simp add: min_def max_def)
    obtain b'' where b'': "Bht_run b (replicate 4 (a, t)) = Inr b''" "contents b'' \<noteq> []"
        "length (contents b'') = length (contents b)"
        "\<forall>i < length (contents b). valid (contents b'' ! i)
            \<longleftrightarrow> valid (contents b ! i)
              \<or> (\<exists>op \<in> set (replicate 4 (a, t)). Bht_index b (fst op) = Inr i)"
      using Bht_run_ok[OF b(2,4), of "replicate 4 (a, t)"] by blast
    have eq: "b'' = b'" using b'(1) b''(1) by simp
    have ib': "Bht_index b' a = Inr ?i"
      using Bht_index_length[OF b''(3), of a] ib by (simp add: eq)
    have "valid (contents b' ! ?i)"
      using b''(4) i0(2) b(3) ib by (simp add: eq)
    moreover have "sat_counter (contents b' ! ?i) = (if t then 3 else 0)"
      using cnt by (simp add: Bht_counter_ok[OF ib'])
    ultimately have "Bht_predict b' a = Inr (Some t)"
      using b''(2) by (simp add: Bht_predict_ok[OF _ ib'] eq)
    with b'(1) cnt show ?thesis by blast
  qed
  from b(1,4) unknown c(1,4) down four[of True] four[of False] show ?thesis
    by (intro exI[of _ b] exI[of _ c]) simp
qed

theorem Bht_predict_resolve_witness:
  "(0::int) < 4
   \<and> Bht_run (Bht_init 4) [(2, True), (10, True)]
       = Inr \<lparr>contents = [\<lparr>valid = False, sat_counter = 0\<rparr>, \<lparr>valid = True, sat_counter = 2\<rparr>,
                          \<lparr>valid = False, sat_counter = 0\<rparr>, \<lparr>valid = False, sat_counter = 0\<rparr>]\<rparr>
   \<and> Bht_index (Bht_init 4) 2 = Inr 1 \<and> Bht_index (Bht_init 4) 10 = Inr 1
   \<and> Bht_index (Bht_init 4) 4 = Inr 2"
  using Bht_predict_resolve[of 4 "[(2, True), (10, True)]" 2]
  by (simp add: Bht_init_def Bht_resolve_def Bht_index_def Let_def numeral_eq_Suc
      drop_bit_eq_div)

section \<open>Properties of the functional units\<close>

text \<open>
  Claim C7 fails as stated. With the second ALU enabled and every unit free, the first
  \<^verbatim>\<open>issue_alu\<close> sets only \<^verbatim>\<open>alu2\<close> and leaves \<^verbatim>\<open>alu\<close> free; it is the second
  that sets \<^verbatim>\<open>alu\<close> and \<^verbatim>\<open>branch\<close>.
\<close>

theorem issue_alu_order_counterexample:
  "issue_alu (FusBusy_init True) = Inr ((FusBusy_init True)\<lparr>alu2 := True\<rparr>)
   \<and> \<not> alu ((FusBusy_init True)\<lparr>alu2 := True\<rparr>)
   \<and> issue_alu ((FusBusy_init True)\<lparr>alu2 := True\<rparr>)
       = Inr ((FusBusy_init True)\<lparr>alu2 := True, alu := True, branch := True\<rparr>)"
  by (simp add: issue_alu_def alu2_ready_def FusBusy_init_def)

text \<open>
  Claim C7, amended. \<^verbatim>\<open>issue_alu\<close> sets only \<^verbatim>\<open>alu2\<close> when the second ALU is
  enabled and free; otherwise it sets \<^verbatim>\<open>alu\<close> and \<^verbatim>\<open>branch\<close> if \<^verbatim>\<open>alu\<close> is free,
  and its assertion fails if \<^verbatim>\<open>alu\<close> is busy. With the second ALU enabled and every
  unit free, the ALU is ready twice in a row and both issues succeed, the first on the
  second ALU and the second on the first; after them the ALU is no longer ready.
\<close>

theorem issue_alu_prefers_alu2:
  "(alu2_ready s \<longrightarrow> issue_alu s = Inr (s\<lparr>alu2 := True\<rparr>))
   \<and> (\<not> alu2_ready s \<and> \<not> alu s \<longrightarrow> issue_alu s = Inr (s\<lparr>alu := True, branch := True\<rparr>))
   \<and> (\<not> alu2_ready s \<and> alu s \<longrightarrow> issue_alu s = Inl AssertionError)
   \<and> is_ready (FusBusy_init True) ALU
   \<and> issue_alu (FusBusy_init True) = Inr ((FusBusy_init True)\<lparr>alu2 := True\<rparr>)
   \<and> is_ready ((FusBusy_init True)\<lparr>alu2 := True\<rparr>) ALU
   \<and> issue_alu ((FusBusy_init True)\<lparr>alu2 := True\<rparr>)
       = Inr ((FusBusy_init True)\<lparr>alu2 := True, alu := True, branch := True\<rparr>)
   \<and> \<not> is_ready ((FusBusy_init True)\<lparr>alu2 := True, alu := True, branch := True\<rparr>) ALU"
  by (simp add: issue_alu_def alu2_ready_def FusBusy_init_def)

theorem issue_alu_prefers_alu2_witness:
  "alu2_ready (FusBusy_init True)
   \<and> issue_alu (FusBusy_init True) = Inr ((FusBusy_init True)\<lparr>alu2 := True\<rparr>)
   \<and> \<not> alu2_ready (FusBusy_init False) \<and> \<not> alu (FusBusy_init False)
   \<and> issue_alu (FusBusy_init False) = Inr ((FusBusy_init False)\<lparr>alu := True, branch := True\<rparr>)
   \<and> \<not> alu2_ready ((FusBusy_init False)\<lparr>alu := True\<rparr>) \<and> alu ((FusBusy_init False)\<lparr>alu := True\<rparr>)
   \<and> issue_alu ((FusBusy_init False)\<lparr>alu := True\<rparr>) = Inl AssertionError"
  using issue_alu_prefers_alu2[of "FusBusy_init True"]
    issue_alu_prefers_alu2[of "FusBusy_init False"]
    issue_alu_prefers_alu2[of "(FusBusy_init False)\<lparr>alu := True\<rparr>"]
  by (simp add: alu2_ready_def FusBusy_init_def)

section \<open>Properties of the timed part\<close>

lemma filter_loop_acc:
  "filter_loop accepting filtered xs = filtered @ filter_loop accepting [] xs"
proof (induction xs arbitrary: accepting filtered)
  case Nil
  then show ?case by simp
next
  case (Cons x xs)
  show ?case
    using Cons.IH[of "\<not> accepting" filtered] Cons.IH[of accepting "filtered @ [x]"]
      Cons.IH[of accepting "[x]"] Cons.IH[of accepting filtered]
    by (cases accepting; cases "is_marker x"; simp)
qed

lemma filter_loop_plain:
  assumes "\<forall>i \<in> set xs. \<not> is_marker i"
  shows "filter_loop accepting [] (xs @ ys)
     = (if accepting then xs else []) @ filter_loop accepting [] ys"
  using assms
proof (induction xs)
  case Nil
  then show ?case by simp
next
  case (Cons x xs)
  then show ?case
    using filter_loop_acc[of accepting "[x]" "xs @ ys"] by (cases accepting; simp)
qed

lemma filter_loop_no_marker:
  "\<forall>i \<in> set (filter_loop accepting [] xs). \<not> is_marker i"
proof (induction xs arbitrary: accepting)
  case Nil
  then show ?case by simp
next
  case (Cons x xs)
  show ?case
    using Cons.IH[of accepting] Cons.IH[of "\<not> accepting"]
      filter_loop_acc[of accepting "[x]" xs]
    by (cases accepting; cases "is_marker x"; simp)
qed

text \<open>
  Claim C8 fails as stated. With three markers in the trace, the instruction after the
  third marker is returned too, though it is not between the first and the second.
\<close>

theorem filter_timed_part_counterexample:
  "filter_timed_part
     [plain_instr 0 ''0x32951073'' 10, plain_instr 4 ''0x00000013'' 11,
      plain_instr 8 ''0x32951073'' 12, plain_instr 12 ''0x00000013'' 13,
      plain_instr 16 ''0x32951073'' 14, plain_instr 20 ''0x00000013'' 15]
   = [plain_instr 4 ''0x00000013'' 11, plain_instr 20 ''0x00000013'' 15]"
  by (simp add: filter_timed_part_def is_marker_def plain_instr_def)

text \<open>
  Claim C8, amended. Every marker toggles the flag and is left out of the result.
  When no instruction before the first marker \<open>m1\<close> or between it and the next marker
  \<open>m2\<close> is a marker, the result is the instructions between the two, in order,
  followed by the timed part of what comes after \<open>m2\<close>; so it is exactly the
  instructions between the two when no marker follows. A trace that ends before a
  second marker yields everything after the first, and a trace without markers yields
  nothing.
\<close>

theorem filter_timed_part_regions:
  assumes "\<forall>i \<in> set pre. \<not> is_marker i" and "\<forall>i \<in> set mid. \<not> is_marker i"
    and "is_marker m1" and "is_marker m2"
  shows "filter_timed_part (pre @ m1 # mid @ m2 # post) = mid @ filter_timed_part post
     \<and> ((\<forall>i \<in> set post. \<not> is_marker i)
          \<longrightarrow> filter_timed_part (pre @ m1 # mid @ m2 # post) = mid)
     \<and> filter_timed_part (pre @ m1 # mid) = mid
     \<and> filter_timed_part pre = []
     \<and> (\<forall>i \<in> set (filter_timed_part trace). \<not> is_marker i)"
proof -
  have a: "filter_timed_part (pre @ m1 # mid @ m2 # post) = mid @ filter_timed_part post"
    using filter_loop_plain[OF assms(1), of False "m1 # mid @ m2 # post"]
      filter_loop_plain[OF assms(2), of True "m2 # post"] assms(3,4)
    by (simp add: filter_timed_part_def)
  have none: "filter_timed_part xs = []" if "\<forall>i \<in> set xs. \<not> is_marker i" for xs
    using filter_loop_plain[OF that, of False "[]"] by (simp add: filter_timed_part_def)
  have c: "filter_timed_part (pre @ m1 # mid) = mid"
    using filter_loop_plain[OF assms(1), of False "m1 # mid"]
      filter_loop_plain[OF assms(2), of True "[]"] assms(3)
    by (simp add: filter_timed_part_def)
  have e: "\<forall>i \<in> set (filter_timed_part trace). \<not> is_marker i"
    unfolding filter_timed_part_def by (rule filter_loop_no_marker)
  from a none[of post] c none[OF assms(1)] e show ?thesis by simp
qed


theorem filter_timed_part_regions_witness:
  "list_all (\<lambda>i. \<not> is_marker i)
     [plain_instr 4 ''0x00000013'' 101,
      plain_instr 8 ''0x00000013'' 102,
      plain_instr 12 ''0x00000013'' 103,
      plain_instr 16 ''0x00000013'' 104,
      plain_instr 20 ''0x00000013'' 105,
      plain_instr 24 ''0x00000013'' 106,
      plain_instr 28 ''0x00000013'' 107,
      plain_instr 32 ''0x00000013'' 108,
      plain_instr 36 ''0x00000013'' 109,
      plain_instr 40 ''0x00000013'' 110]
   \<and> is_marker (plain_instr 0 ''0x32951073'' 100)
   \<and> is_marker (plain_instr 44 ''0x32951073'' 111)
   \<and> list_all (\<lambda>i. \<not> is_marker i)
        [plain_instr 48 ''0x00000013'' 112, plain_instr 52 ''0x00000013'' 113]
   \<and> filter_timed_part
       ([] @ plain_instr 0 ''0x32951073'' 100 #
        [plain_instr 4 ''0x00000013'' 101,
      plain_instr 8 ''0x00000013'' 102,
      plain_instr 12 ''0x00000013'' 103,
      plain_instr 16 ''0x00000013'' 104,
      plain_instr 20 ''0x00000013'' 105,
      plain_instr 24 ''0x00000013'' 106,
      plain_instr 28 ''0x00000013'' 107,
      plain_instr 32 ''0x00000013'' 108,
      plain_instr 36 ''0x00000013'' 109,
      plain_instr 40 ''0x00000013'' 110]
        @ plain_instr 44 ''0x32951073'' 111 #
        [plain_instr 48 ''0x00000013'' 112, plain_instr 52 ''0x00000013'' 113])
     = [plain_instr 4 ''0x00000013'' 101,
      plain_instr 8 ''0x00000013'' 102,
      plain_instr 12 ''0x00000013'' 103,
      plain_instr 16 ''0x00000013'' 104,
      plain_instr 20 ''0x00000013'' 105,
      plain_instr 24 ''0x00000013'' 106,
      plain_instr 28 ''0x00000013'' 107,
      plain_instr 32 ''0x00000013'' 108,
      plain_instr 36 ''0x00000013'' 109,
      plain_instr 40 ''0x00000013'' 110]"
  using filter_timed_part_regions[of "[]"
      "[plain_instr 4 ''0x00000013'' 101,
      plain_instr 8 ''0x00000013'' 102,
      plain_instr 12 ''0x00000013'' 103,
      plain_instr 16 ''0x00000013'' 104,
      plain_instr 20 ''0x00000013'' 105,
      plain_instr 24 ''0x00000013'' 106,
      plain_instr 28 ''0x00000013'' 107,
      plain_instr 32 ''0x00000013'' 108,
      plain_instr 36 ''0x00000013'' 109,
      plain_instr 40 ''0x00000013'' 110]"
      "plain_instr 0 ''0x32951073'' 100" "plain_instr 44 ''0x32951073'' 111"
      "[plain_instr 48 ''0x00000013'' 112, plain_instr 52 ''0x00000013'' 113]" "[]"]
  by (simp add: filter_timed_part_def is_marker_def plain_instr_def)

text \<open>
  Claim C9 on the code. \<^verbatim>\<open>main\<close> of \<^verbatim>\<open>cycle_count.py\<close> raises IndexError on a
  trace without markers, empty or not, and ZeroDivisionError when the timed part is
  a single instruction. \<^verbatim>\<open>main\<close> of \<^verbatim>\<open>compute_accuracy.py\<close> reports such inputs
  and returns.
\<close>

theorem print_stats_short_region:
  "main_cycle_count [] = Inl IndexError
   \<and> main_cycle_count [plain_instr 0 ''0x00000013'' 10, plain_instr 4 ''0x00000013'' 11]
       = Inl IndexError
   \<and> main_cycle_count [plain_instr 0 ''0x32951073'' 10, plain_instr 4 ''0x00000013'' 11,
        plain_instr 8 ''0x32951073'' 12] = Inl ZeroDivisionError
   \<and> main_compute_accuracy [] [] = Not_enough_instructions
   \<and> main_compute_accuracy [11] [11] = Not_enough_instructions"
  by (simp add: main_cycle_count_def print_stats_def count_cycles_def filter_timed_part_def
      is_marker_def plain_instr_def main_compute_accuracy_def Let_def)

end
